theory Spec2Isabelle
  imports Main "HOL-Library.Sublist"
begin

section \<open>JavaScript string primitives\<close>

text \<open>
  Text is modelled as \<^typ>\<open>string\<close>, a list of 8-bit characters: the UTF-8 bytes of
  the text, which is taken to be well-formed (a JavaScript string without lone
  surrogates). A token stands in a text at a UTF-16 offset exactly when its bytes
  stand at the matching byte offset, and the byte offsets are in the order of the
  UTF-16 offsets, so the first occurrence of a token and the lowest of several
  offsets are the same in both; for ASCII text the offsets are equal. The length of
  the list is what \<^verbatim>\<open>Buffer.byteLength(text, "utf8")\<close> counts. The search primitives
  below are polymorphic in the character type.
\<close>

fun startsWith :: "'a list \<Rightarrow> 'a list \<Rightarrow> bool" where
  "startsWith s [] = True"
| "startsWith [] (p # ps) = False"
| "startsWith (c # cs) (p # ps) = (c = p \<and> startsWith cs ps)"

definition endsWith :: "'a list \<Rightarrow> 'a list \<Rightarrow> bool" where
  "endsWith s suf = startsWith (rev s) (rev suf)"

text \<open>
  \<^verbatim>\<open>content.indexOf(token)\<close>: the least offset at which the token starts, \<open>None\<close>
  for JavaScript's \<open>-1\<close>. The empty token is found at offset 0.
\<close>

fun indexOf :: "'a list \<Rightarrow> 'a list \<Rightarrow> nat option" where
  "indexOf [] t = (if t = [] then Some 0 else None)"
| "indexOf (c # cs) t =
     (if startsWith (c # cs) t then Some 0 else map_option Suc (indexOf cs t))"

text \<open>The token stands in the text at offset \<open>i\<close>.\<close>

definition occursAt :: "'a list \<Rightarrow> 'a list \<Rightarrow> nat \<Rightarrow> bool" where
  "occursAt s t i = (i \<le> length s \<and> startsWith (drop i s) t)"


text \<open>
  \<^verbatim>\<open>content.split(separator)\<close> for a non-empty separator: cut at the first
  occurrence, then go on behind it, so matches are found left to right and do not
  overlap. The guard on the empty separator only serves termination.
\<close>

function splitOn :: "'a list \<Rightarrow> 'a list \<Rightarrow> 'a list list" where
  "splitOn sep s =
     (if sep = [] then [s]
      else (case indexOf s sep of
              None \<Rightarrow> [s]
            | Some i \<Rightarrow> take i s # splitOn sep (drop (i + length sep) s)))"
  by pat_completeness auto
termination
proof (relation "measure (\<lambda>(sep, s). length s)")
  show "wf (measure (\<lambda>(sep, s). length s))" by simp
next
  fix sep s :: "'a list" and i :: nat
  assume "sep \<noteq> []" and "indexOf s sep = Some i"
  then have "s \<noteq> []" by (cases s) auto
  with \<open>sep \<noteq> []\<close> show "((sep, drop (i + length sep) s), (sep, s)) \<in> measure (\<lambda>(sep, s). length s)"
    by simp
qed

declare splitOn.simps [simp del]

text \<open>
  With the empty separator \<^verbatim>\<open>split\<close> gives the code units one by one, and no
  segment at all for the empty string. A character of the Basic Multilingual Plane
  is one code unit and one to three bytes, told by its first byte; the bytes are
  grouped accordingly. (A character beyond that plane, of four bytes, is two code
  units, which the code separates; here it stays whole.)
\<close>

definition utf8Length :: "char \<Rightarrow> nat" where
  "utf8Length b =
     (let n = (of_char b :: nat)
      in if 0xC2 \<le> n \<and> n \<le> 0xDF then 2
         else if 0xE0 \<le> n \<and> n \<le> 0xEF then 3
         else if 0xF0 \<le> n \<and> n \<le> 0xF4 then 4
         else 1)"

fun groupCharacters :: "nat \<Rightarrow> string \<Rightarrow> string \<Rightarrow> string list" where
  "groupCharacters k cur [] = (if cur = [] then [] else [cur])"
| "groupCharacters 0 cur (b # bs) =
     (if cur = [] then groupCharacters (utf8Length b - 1) [b] bs
      else cur # groupCharacters (utf8Length b - 1) [b] bs)"
| "groupCharacters (Suc k) cur (b # bs) = groupCharacters k (cur @ [b]) bs"

definition js_split :: "string \<Rightarrow> string \<Rightarrow> string list" where
  "js_split s sep = (if sep = [] then groupCharacters 0 [] s else splitOn sep s)"

fun js_join :: "'a list list \<Rightarrow> 'a list \<Rightarrow> 'a list" where
  "js_join [] r = []"
| "js_join [s] r = s"
| "js_join (s # t # ss) r = s @ r @ js_join (t # ss) r"

text \<open>
  \<^verbatim>\<open>trim()\<close> removes ECMAScript's white space and line terminators at both ends:
  U+0009 to U+000D and U+0020 (one byte each), U+00A0 (bytes C2 A0), and of three
  bytes U+1680, U+2000 to U+200A, U+2028, U+2029, U+202F, U+205F, U+3000 and U+FEFF.
\<close>

definition whiteSpace1 :: "char \<Rightarrow> bool" where
  "whiteSpace1 a =
     (a = CHR 0x09 \<or> a = CHR 0x0A \<or> a = CHR 0x0B \<or> a = CHR 0x0C \<or> a = CHR 0x0D \<or> a = CHR 0x20)"

definition whiteSpace2 :: "char \<Rightarrow> char \<Rightarrow> bool" where
  "whiteSpace2 a b = (a = CHR 0xC2 \<and> b = CHR 0xA0)"

definition whiteSpace3 :: "char \<Rightarrow> char \<Rightarrow> char \<Rightarrow> bool" where
  "whiteSpace3 a b c =
     ((a = CHR 0xE1 \<and> b = CHR 0x9A \<and> c = CHR 0x80)
      \<or> (a = CHR 0xE2 \<and> b = CHR 0x80
           \<and> (let n = (of_char c :: nat)
               in (0x80 \<le> n \<and> n \<le> 0x8A) \<or> n = 0xA8 \<or> n = 0xA9 \<or> n = 0xAF))
      \<or> (a = CHR 0xE2 \<and> b = CHR 0x81 \<and> c = CHR 0x9F)
      \<or> (a = CHR 0xE3 \<and> b = CHR 0x80 \<and> c = CHR 0x80)
      \<or> (a = CHR 0xEF \<and> b = CHR 0xBB \<and> c = CHR 0xBF))"

text \<open>
  White space is dropped from the front of the list for as long as there is some;
  \<open>two\<close> and \<open>three\<close> tell the characters of two and three bytes, so that the same
  scan serves the reversed list.
\<close>

fun dropWhiteSpace ::
  "(char \<Rightarrow> char \<Rightarrow> bool) \<Rightarrow> (char \<Rightarrow> char \<Rightarrow> char \<Rightarrow> bool) \<Rightarrow> string \<Rightarrow> string" where
  "dropWhiteSpace two three (a # b # c # rest) =
     (if whiteSpace1 a then dropWhiteSpace two three (b # c # rest)
      else if two a b then dropWhiteSpace two three (c # rest)
      else if three a b c then dropWhiteSpace two three rest
      else a # b # c # rest)"
| "dropWhiteSpace two three [a, b] =
     (if whiteSpace1 a then dropWhiteSpace two three [b]
      else if two a b then []
      else [a, b])"
| "dropWhiteSpace two three [a] = (if whiteSpace1 a then [] else [a])"
| "dropWhiteSpace two three [] = []"

definition trimStart :: "string \<Rightarrow> string" where
  "trimStart s = dropWhiteSpace whiteSpace2 whiteSpace3 s"

definition trimEnd :: "string \<Rightarrow> string" where
  "trimEnd s =
     rev (dropWhiteSpace (\<lambda>b a. whiteSpace2 a b) (\<lambda>c b a. whiteSpace3 a b c) (rev s))"

definition js_trim :: "string \<Rightarrow> string" where
  "js_trim s = trimEnd (trimStart s)"

text \<open>\<^verbatim>\<open>s.replace(/^\.\//, "")\<close> and \<^verbatim>\<open>s.replace(/\/+$/, "")\<close>.\<close>

definition stripDotSlash :: "string \<Rightarrow> string" where
  "stripDotSlash s = (if startsWith s ''./'' then drop 2 s else s)"

definition stripTrailingSlashes :: "string \<Rightarrow> string" where
  "stripTrailingSlashes s = rev (dropWhile (\<lambda>c. c = CHR ''/'') (rev s))"

text \<open>
  \<^verbatim>\<open>new Set(xs)\<close> read back with \<^verbatim>\<open>Array.from\<close>: the first occurrence of each
  element stays, in insertion order.
\<close>

fun dedupe :: "'a list \<Rightarrow> 'a list \<Rightarrow> 'a list" where
  "dedupe seen [] = []"
| "dedupe seen (x # xs) = (if x \<in> set seen then dedupe seen xs else x # dedupe (x # seen) xs)"

section \<open>path.posix.normalize\<close>

text \<open>
  Node's \<^verbatim>\<open>path.posix.normalize\<close>, which the repository calls on every path. The
  segments between separators are read left to right onto a stack (\<open>res\<close>, top
  first): empty segments and \<open>.\<close> are dropped, \<open>..\<close> removes the segment before it, and
  where there is none to remove it is kept for a relative path and dropped for an
  absolute one. A trailing separator is kept, and the empty result is \<open>.\<close>.
\<close>

fun normalizeString :: "bool \<Rightarrow> string list \<Rightarrow> string list \<Rightarrow> string list" where
  "normalizeString allowAboveRoot res [] = rev res"
| "normalizeString allowAboveRoot res (seg # segs) =
     (if seg = [] \<or> seg = ''.'' then normalizeString allowAboveRoot res segs
      else if seg = ''..'' then
        (case res of
           [] \<Rightarrow> normalizeString allowAboveRoot (if allowAboveRoot then [''..''] else []) segs
         | lastSeg # below \<Rightarrow>
             if lastSeg = ''..''
             then normalizeString allowAboveRoot (if allowAboveRoot then ''..'' # res else res) segs
             else normalizeString allowAboveRoot below segs)
      else normalizeString allowAboveRoot (seg # res) segs)"

definition posix_normalize :: "string \<Rightarrow> string" where
  "posix_normalize p =
     (if p = [] then ''.''
      else
        let isAbsolute = (hd p = CHR ''/'');
            trailingSeparator = (last p = CHR ''/'');
            res = js_join (normalizeString (\<not> isAbsolute) [] (js_split p ''/'')) ''/''
        in if res = [] then (if isAbsolute then ''/'' else if trailingSeparator then ''./'' else ''.'')
           else (if isAbsolute then ''/'' else []) @ res @ (if trailingSeparator then ''/'' else []))"

section \<open>Scope containment\<close>

text \<open>
  The callback of \<^verbatim>\<open>normalizedScope.some(...)\<close>, written twice in the source with
  the same body: in \<^verbatim>\<open>validateModelFiles\<close> and in \<^verbatim>\<open>safeReplace\<close>.
\<close>

definition scopeEntryContains :: "string \<Rightarrow> string \<Rightarrow> bool" where
  "scopeEntryContains normalizedPath scopeEntry =
     (if endsWith scopeEntry ''/'' then startsWith normalizedPath scopeEntry
      else normalizedPath = scopeEntry \<or> startsWith normalizedPath (scopeEntry @ ''/''))"

text \<open>
  \<^verbatim>\<open>scope.map((p) => p.endsWith("/") ? p : `${p}`)\<close>: both branches give the entry
  back unchanged.
\<close>

definition normalizedScope :: "string list \<Rightarrow> string list" where
  "normalizedScope scope = map (\<lambda>scopePath. if endsWith scopePath ''/'' then scopePath else scopePath) scope"

definition isWithinScope :: "string \<Rightarrow> string list \<Rightarrow> bool" where
  "isWithinScope normalizedPath scope = list_ex (scopeEntryContains normalizedPath) (normalizedScope scope)"

text \<open>
  The containment predicate as the specification words it: equal to an entry, or a
  proper descendant of an entry marked as a directory by a trailing separator.
\<close>

definition spec_inScope :: "string \<Rightarrow> string list \<Rightarrow> bool" where
  "spec_inScope p scope =
     (\<exists>e \<in> set scope. p = e \<or> (endsWith e ''/'' \<and> strict_prefix e p))"

section \<open>Errors\<close>

text \<open>
  Every \<^verbatim>\<open>throw new Error(...)\<close> of the pipeline is one constructor, named after
  its message; a function that can throw returns \<open>error + 'a\<close>, with \<open>Inl\<close> the
  exception.
\<close>

datatype error =
    TicketNotObject
  | TicketMissingField string
  | ScopeNotNonEmptyArray
  | ScopeEntryNotNonEmptyString
  | ScopeEscapesRepository string
  | GuardrailsNotArray
  | NoFiles
  | TooManyFiles
  | FileEntryMalformed
  | FilePathEscapesRepository string
  | PathOutsideScope string
  | Base64DecodeFailed string
  | DecodedContentsEmpty string
  | DecodedContentsTooLarge string
  | PresetTargetMissing
  | PresetTargetUnknown
  | PresetKindUnknown
  | PresetShadeUnknown
  | SafeReplaceNoEntries
  | SafeReplaceEntryNoPath
  | SafeReplacePathEscapes string
  | SafeReplaceOutsideScope string
  | SafeReplaceNotInScopeFiles string
  | SafeReplaceNotObject
  | SafeReplaceNoReplaceString
  | SafeReplaceEmptyFindAny
  | SafeReplaceNoFind
  | SanityRailsFailure

text \<open>
  \<^verbatim>\<open>xs.map(f)\<close> with a callback that can throw: the elements are visited in order
  and the first exception ends the map.
\<close>

fun mapE :: "('a \<Rightarrow> error + 'b) \<Rightarrow> 'a list \<Rightarrow> error + 'b list" where
  "mapE f [] = Inr []"
| "mapE f (x # xs) =
     (case f x of
        Inl e \<Rightarrow> Inl e
      | Inr y \<Rightarrow> (case mapE f xs of Inl e \<Rightarrow> Inl e | Inr ys \<Rightarrow> Inr (y # ys)))"

section \<open>Tickets\<close>

text \<open>
  The values \<^verbatim>\<open>yaml.load\<close> can put into a ticket field. \<open>JNull\<close> also stands for an
  absent field (\<^verbatim>\<open>undefined\<close>); \<open>JObj\<close> is any mapping.
\<close>

datatype jsval = JNull | JBool bool | JNum int | JStr string | JArr "jsval list" | JObj

fun truthy :: "jsval \<Rightarrow> bool" where
  "truthy JNull = False"
| "truthy (JBool b) = b"
| "truthy (JNum n) = (n \<noteq> 0)"
| "truthy (JStr s) = (s \<noteq> [])"
| "truthy (JArr xs) = True"
| "truthy JObj = True"

text \<open>
  A replacement rule as written in a ticket: the fields are \<open>None\<close> where the rule
  has no such field or one of another type (\<^verbatim>\<open>typeof replacement.find === "string"\<close>,
  \<^verbatim>\<open>Array.isArray(replacement.find_any)\<close>, \<^verbatim>\<open>typeof replaceValue !== "string"\<close>). An
  element of \<open>find_any\<close> that is no string is given by the string
  \<^verbatim>\<open>String(token || "")\<close> makes of it.
\<close>

record replacement =
  r_find :: "string option"
  r_find_any :: "string list option"
  r_replace :: "string option"

text \<open>
  A colour preset; an absent \<open>target\<close> is the empty string, absent or empty \<open>kinds\<close>
  and \<open>shades\<close> are the empty list, and a numeric shade is its decimal string, as
  \<^verbatim>\<open>String(rawShade)\<close> makes it.
\<close>

record color_preset =
  cp_target :: string
  cp_kinds :: "string list"
  cp_shades :: "string list"

text \<open>
  An entry of \<^verbatim>\<open>ticket.safe_replace\<close>. \<open>d_path\<close> is \<open>None\<close> when the entry is no
  object or its path no string; \<open>d_replacements\<close> is empty when the entry has no
  array there; an element of it is \<open>None\<close> when it is no object; \<open>d_color_preset\<close> is
  \<open>None\<close> when the entry has no preset object.
\<close>

record directive =
  d_path :: "string option"
  d_replacements :: "replacement option list"
  d_color_preset :: "color_preset option"

text \<open>The object \<^verbatim>\<open>yaml.load\<close> returned, before validation.\<close>

record yaml_ticket =
  y_title :: jsval
  y_why :: jsval
  y_scope :: jsval
  y_dod :: jsval
  y_guardrails :: jsval
  y_safe_replace :: "directive list"

text \<open>
  The ticket \<^verbatim>\<open>parseTicket\<close> returns: the same object with \<open>scope\<close> replaced by the
  normalised paths. \<open>safe_replace\<close> is empty when the ticket has no such array.
\<close>

record ticket =
  t_title :: jsval
  t_why :: jsval
  t_scope :: "string list"
  t_dod :: jsval
  t_guardrails :: jsval
  t_safe_replace :: "directive list"

text \<open>The callback of \<^verbatim>\<open>ticket.scope.map(...)\<close> in \<^verbatim>\<open>parseTicket\<close>.\<close>

definition normalizeScopeEntry :: "jsval \<Rightarrow> error + string" where
  "normalizeScopeEntry entry =
     (case entry of
        JStr s \<Rightarrow>
          if js_trim s = [] then Inl ScopeEntryNotNonEmptyString
          else
            let trimmed = js_trim s;
                isDirectory = endsWith trimmed ''/'';
                normalized = posix_normalize (if isDirectory then stripTrailingSlashes trimmed else trimmed)
            in if startsWith normalized ''../'' then Inl (ScopeEscapesRepository s)
               else
                 let finalPath = stripDotSlash normalized
                 in Inr (if isDirectory then finalPath @ ''/'' else finalPath)
      | _ \<Rightarrow> Inl ScopeEntryNotNonEmptyString)"

text \<open>
  \<^verbatim>\<open>parseTicket\<close> from the point where \<^verbatim>\<open>yaml.load\<close> has returned; \<open>None\<close> is a
  result that is no object. Locating the block in the document and decoding the YAML
  come before and are not modelled.
\<close>

definition parseTicket :: "yaml_ticket option \<Rightarrow> error + ticket" where
  "parseTicket loaded =
     (case loaded of
        None \<Rightarrow> Inl TicketNotObject
      | Some t \<Rightarrow>
          if \<not> truthy (y_title t) then Inl (TicketMissingField ''title'')
          else if \<not> truthy (y_why t) then Inl (TicketMissingField ''why'')
          else if \<not> truthy (y_scope t) then Inl (TicketMissingField ''scope'')
          else if \<not> truthy (y_dod t) then Inl (TicketMissingField ''dod'')
          else
            (case y_scope t of
               JArr entries \<Rightarrow>
                 if entries = [] then Inl ScopeNotNonEmptyArray
                 else
                   (case mapE normalizeScopeEntry entries of
                      Inl e \<Rightarrow> Inl e
                    | Inr paths \<Rightarrow>
                        if truthy (y_guardrails t) \<and> \<not> (case y_guardrails t of JArr g \<Rightarrow> True | _ \<Rightarrow> False)
                        then Inl GuardrailsNotArray
                        else Inr \<lparr> t_title = y_title t, t_why = y_why t, t_scope = paths, t_dod = y_dod t,
                                   t_guardrails = y_guardrails t, t_safe_replace = y_safe_replace t \<rparr>)
             | _ \<Rightarrow> Inl ScopeNotNonEmptyArray))"

text \<open>
  What the specification asks of a parsed scope entry: a relative path with no \<open>..\<close>
  component.
\<close>

definition hasTraversalComponent :: "string \<Rightarrow> bool" where
  "hasTraversalComponent p = (''..'' \<in> set (js_split p ''/''))"

section \<open>Base64\<close>

text \<open>
  Node's \<^verbatim>\<open>Buffer\<close>. A buffer is a list of bytes, and text is held by its UTF-8
  bytes, so \<^verbatim>\<open>Buffer.from(text, "utf8")\<close> leaves the list as it is.
\<close>

definition MAX_FILES :: nat where
  "MAX_FILES = 5"

definition MAX_FILE_SIZE :: nat where
  "MAX_FILE_SIZE = 200 * 1024"

definition base64Char :: "nat \<Rightarrow> char" where
  "base64Char n =
     (if n < 26 then char_of (n + 65)
      else if n < 52 then char_of (n + 71)
      else if n < 62 then char_of (n - 4)
      else if n = 62 then CHR ''+'' else CHR ''/'')"

text \<open>The value of a base64 digit; Node reads the URL-safe digits \<open>-\<close> and \<open>_\<close> too.\<close>

definition unbase64 :: "char \<Rightarrow> nat option" where
  "unbase64 c =
     (let n = (of_char c :: nat)
      in if 65 \<le> n \<and> n \<le> 90 then Some (n - 65)
         else if 97 \<le> n \<and> n \<le> 122 then Some (n - 71)
         else if 48 \<le> n \<and> n \<le> 57 then Some (n + 4)
         else if c = CHR ''+'' \<or> c = CHR ''-'' then Some 62
         else if c = CHR ''/'' \<or> c = CHR ''_'' then Some 63
         else None)"

text \<open>\<^verbatim>\<open>buffer.toString("base64")\<close>: three bytes give four digits, padded with \<open>=\<close>.\<close>

fun toBase64 :: "string \<Rightarrow> string" where
  "toBase64 (a # b # c # rest) =
     (let x = (of_char a :: nat); y = (of_char b :: nat); z = (of_char c :: nat)
      in [base64Char (x div 4), base64Char ((x mod 4) * 16 + y div 16),
          base64Char ((y mod 16) * 4 + z div 64), base64Char (z mod 64)] @ toBase64 rest)"
| "toBase64 [a, b] =
     (let x = (of_char a :: nat); y = (of_char b :: nat)
      in [base64Char (x div 4), base64Char ((x mod 4) * 16 + y div 16),
          base64Char ((y mod 16) * 4), CHR ''=''])"
| "toBase64 [a] =
     (let x = (of_char a :: nat)
      in [base64Char (x div 4), base64Char ((x mod 4) * 16), CHR ''='', CHR ''=''])"
| "toBase64 [] = []"

text \<open>
  \<^verbatim>\<open>Buffer.from(s, "base64")\<close> does not throw on a string: it decodes leniently.
  Characters that are no base64 digits are skipped, the first \<open>=\<close> ends the input,
  and a last group of two or three digits gives one or two bytes.
\<close>

fun base64Digits :: "string \<Rightarrow> nat list" where
  "base64Digits [] = []"
| "base64Digits (c # cs) =
     (case unbase64 c of
        Some v \<Rightarrow> v # base64Digits cs
      | None \<Rightarrow> if c = CHR ''='' then [] else base64Digits cs)"

fun decodeDigits :: "nat list \<Rightarrow> string" where
  "decodeDigits (a # b # c # d # rest) =
     [char_of (a * 4 + b div 16), char_of ((b mod 16) * 16 + c div 4), char_of ((c mod 4) * 64 + d)]
       @ decodeDigits rest"
| "decodeDigits [a, b, c] = [char_of (a * 4 + b div 16), char_of ((b mod 16) * 16 + c div 4)]"
| "decodeDigits [a, b] = [char_of (a * 4 + b div 16)]"
| "decodeDigits [a] = []"
| "decodeDigits [] = []"

text \<open>
  The call inside \<^verbatim>\<open>try { ... } catch\<close>: \<open>None\<close> would be the exception the
  \<^verbatim>\<open>catch\<close> waits for.
\<close>

definition bufferFromBase64 :: "string \<Rightarrow> string option" where
  "bufferFromBase64 s = Some (decodeDigits (base64Digits s))"

text \<open>
  \<^verbatim>\<open>buffer.toString("utf8")\<close> reads the bytes as UTF-8 and puts U+FFFD (bytes EF BF BD)
  for every ill-formed part: a byte that cannot begin a character, or a begun
  character cut short by a byte outside \<open>lower\<close> to \<open>upper\<close> (that byte is then read
  again as a beginning) or by the end of the buffer. \<open>needed\<close> counts the bytes the
  character still lacks and \<open>seen\<close> holds the ones read. Well-formed bytes come out
  as they went in.
\<close>

definition replacementCharacter :: string where
  "replacementCharacter = [CHR 0xEF, CHR 0xBF, CHR 0xBD]"

function utf8Decode :: "nat \<Rightarrow> nat \<Rightarrow> nat \<Rightarrow> string \<Rightarrow> string \<Rightarrow> string" where
  "utf8Decode needed lower upper seen [] = (if needed = 0 then [] else replacementCharacter)"
| "utf8Decode needed lower upper seen (b # bs) =
     (if needed = 0 then
        (if (of_char b :: nat) \<le> 0x7F then b # utf8Decode 0 0x80 0xBF [] bs
         else if 0xC2 \<le> (of_char b :: nat) \<and> (of_char b :: nat) \<le> 0xDF
           then utf8Decode 1 0x80 0xBF [b] bs
         else if 0xE0 \<le> (of_char b :: nat) \<and> (of_char b :: nat) \<le> 0xEF
           then utf8Decode 2 (if b = CHR 0xE0 then 0xA0 else 0x80)
                  (if b = CHR 0xED then 0x9F else 0xBF) [b] bs
         else if 0xF0 \<le> (of_char b :: nat) \<and> (of_char b :: nat) \<le> 0xF4
           then utf8Decode 3 (if b = CHR 0xF0 then 0x90 else 0x80)
                  (if b = CHR 0xF4 then 0x8F else 0xBF) [b] bs
         else replacementCharacter @ utf8Decode 0 0x80 0xBF [] bs)
      else if (of_char b :: nat) < lower \<or> upper < (of_char b :: nat)
        then replacementCharacter @ utf8Decode 0 0x80 0xBF [] (b # bs)
      else if needed = 1 then seen @ [b] @ utf8Decode 0 0x80 0xBF [] bs
      else utf8Decode (needed - 1) 0x80 0xBF (seen @ [b]) bs)"
  by pat_completeness auto
termination
  by (relation "measure (\<lambda>(needed, lower, upper, seen, bs).
        2 * length bs + (if needed = 0 then 0 else 1))") auto

declare utf8Decode.simps [simp del]

definition utf8ToString :: "string \<Rightarrow> string" where
  "utf8ToString buffer = utf8Decode 0 0x80 0xBF [] buffer"

text \<open>
  Well-formed base64, as the specification means it: digits of the standard alphabet
  in groups of four, the last group padded with at most two \<open>=\<close>.
\<close>

definition standardDigit :: "char \<Rightarrow> bool" where
  "standardDigit c = (unbase64 c \<noteq> None \<and> c \<noteq> CHR ''-'' \<and> c \<noteq> CHR ''_'')"

fun validBase64 :: "string \<Rightarrow> bool" where
  "validBase64 [] = True"
| "validBase64 [a, b, c, d] =
     (standardDigit a \<and> standardDigit b \<and>
      (if d = CHR ''='' then c = CHR ''='' \<or> standardDigit c
       else standardDigit c \<and> standardDigit d))"
| "validBase64 (a # b # c # d # rest) =
     (standardDigit a \<and> standardDigit b \<and> standardDigit c \<and> standardDigit d \<and> validBase64 rest)"
| "validBase64 _ = False"

section \<open>The generated-edit validator\<close>

text \<open>
  An entry of the \<open>files\<close> array: a field is \<open>None\<close> when it is absent or no string
  (an entry that is no object has both \<open>None\<close>).
\<close>

record model_file =
  mf_path :: "string option"
  mf_contents_base64 :: "string option"

record candidate_file =
  cf_path :: string
  cf_contents :: string
  cf_base64 :: string

text \<open>The callback of \<^verbatim>\<open>modelFiles.map(...)\<close> in \<^verbatim>\<open>validateModelFiles\<close>.\<close>

definition validateModelFile :: "string list \<Rightarrow> model_file \<Rightarrow> error + candidate_file" where
  "validateModelFile scope file =
     (case (mf_path file, mf_contents_base64 file) of
        (Some path, Some contents_base64) \<Rightarrow>
          let normalizedPath = posix_normalize (stripDotSlash path)
          in if startsWith normalizedPath ''../'' then Inl (FilePathEscapesRepository path)
             else if \<not> isWithinScope normalizedPath scope then Inl (PathOutsideScope path)
             else
               (case bufferFromBase64 contents_base64 of
                  None \<Rightarrow> Inl (Base64DecodeFailed path)
                | Some buffer \<Rightarrow>
                    if length buffer = 0 then Inl (DecodedContentsEmpty path)
                    else if length buffer > MAX_FILE_SIZE then Inl (DecodedContentsTooLarge path)
                    else Inr \<lparr> cf_path = normalizedPath, cf_contents = utf8ToString buffer,
                               cf_base64 = contents_base64 \<rparr>)
      | _ \<Rightarrow> Inl FileEntryMalformed)"

text \<open>\<open>modelFiles\<close> is \<open>None\<close> when the value is no array.\<close>

definition validateModelFiles :: "model_file list option \<Rightarrow> string list \<Rightarrow> error + candidate_file list" where
  "validateModelFiles modelFiles scope =
     (case modelFiles of
        None \<Rightarrow> Inl NoFiles
      | Some files \<Rightarrow>
          if length files = 0 then Inl NoFiles
          else if length files > MAX_FILES then Inl TooManyFiles
          else mapE (validateModelFile scope) files)"


section \<open>Colour presets\<close>

definition COLOR_PRESET_COLORS :: "string list" where
  "COLOR_PRESET_COLORS = [''red'', ''orange'', ''pink'', ''purple'', ''green'']"

definition COLOR_PRESET_KIND_SET :: "string list" where
  "COLOR_PRESET_KIND_SET =
     [''text'', ''hover:text'', ''bg'', ''hover:bg'', ''active:bg'', ''focus-visible:ring'']"

definition COLOR_PRESET_SHADE_SET :: "string list" where
  "COLOR_PRESET_SHADE_SET = [''500'', ''600'', ''700'']"

text \<open>The template literal \<^verbatim>\<open>`${kind}-${color}-${shade}`\<close>.\<close>

definition colorToken :: "string \<Rightarrow> string \<Rightarrow> string \<Rightarrow> string" where
  "colorToken kind color shade = kind @ ''-'' @ color @ ''-'' @ shade"

text \<open>The body of the inner loop of \<^verbatim>\<open>buildColorPresetReplacements\<close>, for one shade.\<close>

definition presetRule :: "string \<Rightarrow> string \<Rightarrow> string \<Rightarrow> error + replacement" where
  "presetRule target kind rawShade =
     (let shade = js_trim rawShade
      in if shade \<notin> set COLOR_PRESET_SHADE_SET then Inl PresetShadeUnknown
         else
           let find_any = dedupe [] (map (\<lambda>color. colorToken kind color shade) COLOR_PRESET_COLORS);
               replace = colorToken kind target shade
           in Inr \<lparr> r_find = None, r_find_any = Some find_any, r_replace = Some replace \<rparr>)"

text \<open>
  The \<open>find_any\<close> list as the specification words it: every palette name but the
  target, through the token template.
\<close>

definition spec_presetFindAny :: "string \<Rightarrow> string \<Rightarrow> string \<Rightarrow> string list" where
  "spec_presetFindAny kind target shade =
     map (\<lambda>color. colorToken kind color shade) (filter (\<lambda>color. color \<noteq> target) COLOR_PRESET_COLORS)"

text \<open>The body of the outer loop, for one kind: the rules of all its shades.\<close>

definition presetRulesOfKind :: "string \<Rightarrow> string list \<Rightarrow> string \<Rightarrow> error + replacement list" where
  "presetRulesOfKind target shades rawKind =
     (let kind = js_trim rawKind
      in if kind \<notin> set COLOR_PRESET_KIND_SET then Inl PresetKindUnknown
         else mapE (presetRule target kind) shades)"

text \<open>\<open>None\<close> is a preset that is no object.\<close>

definition buildColorPresetReplacements :: "color_preset option \<Rightarrow> error + replacement list" where
  "buildColorPresetReplacements preset =
     (case preset of
        None \<Rightarrow> Inr []
      | Some p \<Rightarrow>
          let target = js_trim (cp_target p)
          in if target = [] then Inl PresetTargetMissing
             else if target \<notin> set COLOR_PRESET_COLORS then Inl PresetTargetUnknown
             else
               let kinds = (if cp_kinds p \<noteq> [] then cp_kinds p else [''text'']);
                   shades = (if cp_shades p \<noteq> [] then cp_shades p else [''500''])
               in (case mapE (presetRulesOfKind target shades) kinds of
                     Inl e \<Rightarrow> Inl e
                   | Inr groups \<Rightarrow> Inr (concat groups)))"



section \<open>SafeReplace\<close>

record scope_file =
  sf_path :: string
  sf_content :: string
  sf_sha :: string

text \<open>
  The variables of the rule loop: \<open>content\<close>, \<open>modified\<close> and \<open>replacementCount\<close>,
  with a prefix.
  \<open>searchedTokens\<close> only feeds a log line and is left out.
\<close>

record rule_state =
  rs_content :: string
  rs_modified :: bool
  rs_replacementCount :: int

text \<open>
  The scan of a \<open>find_any\<close> rule for \<open>chosenToken\<close> and \<open>chosenIndex\<close>: \<open>None\<close> is
  the start, \<^verbatim>\<open>null\<close> and \<^verbatim>\<open>Infinity\<close>. A later token replaces the chosen one only
  at a strictly lower offset.
\<close>

fun chooseToken :: "string \<Rightarrow> string list \<Rightarrow> (string \<times> nat) option \<Rightarrow> (string \<times> nat) option" where
  "chooseToken text [] chosen = chosen"
| "chooseToken text (token # rest) chosen =
     (case indexOf text token of
        None \<Rightarrow> chooseToken text rest chosen
      | Some index \<Rightarrow>
          (case chosen of
             None \<Rightarrow> chooseToken text rest (Some (token, index))
           | Some (chosenToken, chosenIndex) \<Rightarrow>
               if index < chosenIndex then chooseToken text rest (Some (token, index))
               else chooseToken text rest chosen))"

text \<open>The split and rejoin both kinds of rule end with.\<close>

definition substitute :: "rule_state \<Rightarrow> string \<Rightarrow> string \<Rightarrow> rule_state" where
  "substitute st token replaceValue =
     (let segments = js_split (rs_content st) token;
          occurrences = int (length segments) - 1
      in if occurrences > 0
         then \<lparr> rs_content = js_join segments replaceValue, rs_modified = True,
                rs_replacementCount = rs_replacementCount st + occurrences \<rparr>
         else st \<lparr> rs_content := js_join segments replaceValue \<rparr>)"

text \<open>
  \<^verbatim>\<open>replacement.find_any.map((token) => String(token || "").trim()).filter((token) => token.length > 0)\<close>
\<close>

definition tokenListOf :: "string list \<Rightarrow> string list" where
  "tokenListOf find_any = filter (\<lambda>token. length token > 0) (map js_trim find_any)"

text \<open>
  The outcome of a \<open>find_any\<close> rule as the specification words it: of the tokens
  as listed, the one with the lowest first offset is cut out and replaced.
\<close>

definition spec_findAny :: "string \<Rightarrow> string list \<Rightarrow> string \<Rightarrow> string" where
  "spec_findAny text find_any replaceValue =
     (case chooseToken text find_any None of
        None \<Rightarrow> text
      | Some (token, index) \<Rightarrow> js_join (js_split text token) replaceValue)"

text \<open>The body of the loop over \<^verbatim>\<open>entry.replacements\<close>, for one rule.\<close>

definition applyReplacement :: "rule_state \<Rightarrow> replacement option \<Rightarrow> error + rule_state" where
  "applyReplacement st replacement =
     (case replacement of
        None \<Rightarrow> Inl SafeReplaceNotObject
      | Some r \<Rightarrow>
          (case r_replace r of
             None \<Rightarrow> Inl SafeReplaceNoReplaceString
           | Some replaceValue \<Rightarrow>
               (case r_find r of
                  Some findToken \<Rightarrow>
                    if length (js_split (rs_content st) findToken) = 1 then Inr st
                    else Inr (substitute st findToken replaceValue)
                | None \<Rightarrow>
                    (case r_find_any r of
                       Some find_any \<Rightarrow>
                         let tokenList = tokenListOf find_any
                         in if length tokenList = 0 then Inl SafeReplaceEmptyFindAny
                            else
                              (case chooseToken (rs_content st) tokenList None of
                                 None \<Rightarrow> Inr st
                               | Some (chosenToken, chosenIndex) \<Rightarrow>
                                   Inr (substitute st chosenToken replaceValue))
                     | None \<Rightarrow> Inl SafeReplaceNoFind))))"

fun applyReplacements :: "rule_state \<Rightarrow> replacement option list \<Rightarrow> error + rule_state" where
  "applyReplacements st [] = Inr st"
| "applyReplacements st (replacement # rest) =
     (case applyReplacement st replacement of
        Inl e \<Rightarrow> Inl e
      | Inr st' \<Rightarrow> applyReplacements st' rest)"

text \<open>
  \<^verbatim>\<open>new Map(scopeFiles.map((file) => [path.posix.normalize(file.path), file]))\<close>: of
  two files with one key the later stays.
\<close>

definition scopeMap :: "scope_file list \<Rightarrow> string \<Rightarrow> scope_file option" where
  "scopeMap scopeFiles = map_of (rev (map (\<lambda>file. (posix_normalize (sf_path file), file)) scopeFiles))"

text \<open>
  The body of the loop over the expanded entries, for one entry: an exception, no
  file (\<^verbatim>\<open>continue\<close>, or no change), or the file pushed onto \<open>files\<close>.
\<close>

definition processEntry :: "string list \<Rightarrow> scope_file list \<Rightarrow> directive \<Rightarrow> error + model_file option" where
  "processEntry scope scopeFiles entry =
     (case d_path entry of
        None \<Rightarrow> Inl SafeReplaceEntryNoPath
      | Some path \<Rightarrow>
          let normalizedPath = posix_normalize (stripDotSlash path)
          in if startsWith normalizedPath ''../'' then Inl (SafeReplacePathEscapes path)
             else if \<not> isWithinScope normalizedPath scope then Inl (SafeReplaceOutsideScope path)
             else
               (case scopeMap scopeFiles normalizedPath of
                  None \<Rightarrow> Inl (SafeReplaceNotInScopeFiles path)
                | Some scopeFile \<Rightarrow>
                    if d_replacements entry = [] then Inr None
                    else
                      let originalContent = sf_content scopeFile
                      in (case applyReplacements
                                 \<lparr> rs_content = originalContent, rs_modified = False, rs_replacementCount = 0 \<rparr>
                                 (d_replacements entry) of
                            Inl e \<Rightarrow> Inl e
                          | Inr st \<Rightarrow>
                              if rs_modified st \<and> rs_content st \<noteq> originalContent
                              then Inr (Some \<lparr> mf_path = Some normalizedPath,
                                               mf_contents_base64 = Some (toBase64 (rs_content st)) \<rparr>)
                              else Inr None)))"




section \<open>Sanity Rails\<close>









section \<open>The run\<close>



section \<open>Facts about the string primitives\<close>

lemma startsWith_iff_append: "startsWith s p \<longleftrightarrow> (\<exists>r. s = p @ r)"
  by (induction s p rule: startsWith.induct) auto

lemma startsWith_iff_prefix: "startsWith s p \<longleftrightarrow> prefix p s"
  by (simp add: startsWith_iff_append prefix_def)

lemma normalizedScope_id: "normalizedScope scope = scope"
  by (simp add: normalizedScope_def)

text \<open>
  \<open>indexOf\<close> gives the first occurrence: the token stands at the offset returned and
  at no lower one, and \<open>None\<close> means it stands nowhere.
\<close>

lemma occursAt_0: "occursAt s t 0 \<longleftrightarrow> startsWith s t"
  by (simp add: occursAt_def)

lemma occursAt_Suc: "occursAt (c # cs) t (Suc i) \<longleftrightarrow> occursAt cs t i"
  by (simp add: occursAt_def)

lemma indexOf_Some_iff:
  "indexOf s t = Some i \<longleftrightarrow> occursAt s t i \<and> (\<forall>j<i. \<not> occursAt s t j)"
proof (induction s arbitrary: i)
  case Nil
  show ?case by (cases t) (auto simp: occursAt_def)
next
  case (Cons c cs)
  show ?case
  proof (cases "startsWith (c # cs) t")
    case True
    then show ?thesis using occursAt_0 [of "c # cs" t] by auto
  next
    case False
    show ?thesis
    proof (cases i)
      case 0
      with False show ?thesis by (simp add: occursAt_0)
    next
      case (Suc k)
      have "(\<forall>j<Suc k. \<not> occursAt (c # cs) t j) \<longleftrightarrow> (\<forall>j<k. \<not> occursAt cs t j)"
        using False by (auto simp: less_Suc_eq_0_disj occursAt_0 occursAt_Suc)
      with False Suc Cons.IH [of k] show ?thesis
        by (auto simp: occursAt_Suc)
    qed
  qed
qed

lemma indexOf_None_iff: "indexOf s t = None \<longleftrightarrow> (\<forall>j. \<not> occursAt s t j)"
proof (induction s)
  case Nil
  show ?case by (cases t) (auto simp: occursAt_def)
next
  case (Cons c cs)
  show ?case
  proof (cases "startsWith (c # cs) t")
    case True
    then show ?thesis using occursAt_0 [of "c # cs" t] by auto
  next
    case False
    have "(\<forall>j. \<not> occursAt (c # cs) t j) \<longleftrightarrow> (\<forall>j. \<not> occursAt cs t j)"
    proof
      assume a: "\<forall>j. \<not> occursAt (c # cs) t j"
      show "\<forall>j. \<not> occursAt cs t j"
      proof
        fix j from a have "\<not> occursAt (c # cs) t (Suc j)" by blast
        then show "\<not> occursAt cs t j" by (simp add: occursAt_Suc)
      qed
    next
      assume a: "\<forall>j. \<not> occursAt cs t j"
      show "\<forall>j. \<not> occursAt (c # cs) t j"
      proof
        fix j show "\<not> occursAt (c # cs) t j"
          using a False by (cases j) (auto simp: occursAt_0 occursAt_Suc)
      qed
    qed
    with False Cons.IH show ?thesis by simp
  qed
qed

lemma occursAt_iff_append: "occursAt s t i \<longleftrightarrow> (\<exists>a b. s = a @ t @ b \<and> length a = i)"
proof
  assume "occursAt s t i"
  then obtain r where "i \<le> length s" "drop i s = t @ r"
    by (auto simp: occursAt_def startsWith_iff_append)
  then have "s = take i s @ t @ r \<and> length (take i s) = i"
    by (metis append_take_drop_id length_take min.absorb2)
  then show "\<exists>a b. s = a @ t @ b \<and> length a = i" by blast
next
  assume "\<exists>a b. s = a @ t @ b \<and> length a = i"
  then show "occursAt s t i" by (auto simp: occursAt_def startsWith_iff_append)
qed

lemma indexOf_bound: "indexOf s t = Some i \<Longrightarrow> i + length t \<le> length s"
  by (auto simp: indexOf_Some_iff occursAt_iff_append)

lemma splitOn_not_found: "indexOf s sep = None \<Longrightarrow> splitOn sep s = [s]"
  by (simp add: splitOn.simps)

lemma splitOn_found:
  "sep \<noteq> [] \<Longrightarrow> indexOf s sep = Some i \<Longrightarrow>
     splitOn sep s = take i s # splitOn sep (drop (i + length sep) s)"
  by (subst splitOn.simps) simp

lemma splitOn_nonempty: "splitOn sep s \<noteq> []"
  by (subst splitOn.simps) (simp split: option.split)

lemma length_splitOn_1_iff:
  "sep \<noteq> [] \<Longrightarrow> length (splitOn sep s) = 1 \<longleftrightarrow> indexOf s sep = None"
proof (cases "indexOf s sep")
  case None
  then show ?thesis by (simp add: splitOn_not_found)
next
  case (Some i)
  assume "sep \<noteq> []"
  with Some show ?thesis using splitOn_nonempty [of sep "drop (i + length sep) s"]
    by (simp add: splitOn_found)
qed

lemma js_join_Cons: "ss \<noteq> [] \<Longrightarrow> js_join (s # ss) r = s @ r @ js_join ss r"
  by (cases ss) simp_all

lemma js_join_splitOn: "js_join (splitOn sep s) sep = s"
proof (induction sep s rule: splitOn.induct)
  case (1 sep s)
  show ?case
  proof (cases "sep = []")
    case True
    then show ?thesis by (simp add: splitOn.simps)
  next
    case False
    show ?thesis
    proof (cases "indexOf s sep")
      case None
      then show ?thesis by (simp add: splitOn_not_found)
    next
      case (Some i)
      have "occursAt s sep i" using Some by (simp add: indexOf_Some_iff)
      then obtain r where r: "i \<le> length s" "drop i s = sep @ r"
        by (auto simp: occursAt_def startsWith_iff_append)
      have d: "drop (i + length sep) s = r"
        using r by (metis add.commute append_eq_conv_conj drop_drop)
      have "js_join (splitOn sep s) sep = take i s @ sep @ js_join (splitOn sep (drop (i + length sep) s)) sep"
        using False Some by (simp add: splitOn_found js_join_Cons splitOn_nonempty)
      also have "\<dots> = take i s @ sep @ r"
        using "1.IH" [OF False Some] d by simp
      also have "\<dots> = s" using r by (metis append_take_drop_id)
      finally show ?thesis .
    qed
  qed
qed

lemma segments_without_sep:
  "sep \<noteq> [] \<Longrightarrow> seg \<in> set (splitOn sep s) \<Longrightarrow> indexOf seg sep = None"
proof (induction sep s rule: splitOn.induct)
  case (1 sep s)
  show ?case
  proof (cases "indexOf s sep")
    case None
    with "1.prems" show ?thesis by (simp add: splitOn_not_found)
  next
    case (Some i)
    from "1.prems" Some have "seg = take i s \<or> seg \<in> set (splitOn sep (drop (i + length sep) s))"
      by (simp add: splitOn_found)
    then show ?thesis
    proof
      assume seg: "seg = take i s"
      show ?thesis
      proof (rule ccontr)
        assume "indexOf seg sep \<noteq> None"
        then obtain j where j: "indexOf seg sep = Some j" by auto
        then have "occursAt seg sep j" by (simp add: indexOf_Some_iff)
        then obtain a b where ab: "take i s = a @ sep @ b" "length a = j"
          using seg by (auto simp: occursAt_iff_append)
        have "s = a @ sep @ (b @ drop i s)"
          using ab by (metis append.assoc append_take_drop_id)
        then have "occursAt s sep j" using ab by (auto simp: occursAt_iff_append)
        moreover have "j < i"
        proof -
          have "length (take i s) = j + length sep + length b" using ab by simp
          with "1.prems"(1) have "j < length (take i s)" by (cases sep) auto
          then show ?thesis by simp
        qed
        ultimately show False using Some by (auto simp: indexOf_Some_iff)
      qed
    next
      assume "seg \<in> set (splitOn sep (drop (i + length sep) s))"
      with "1.IH" [OF "1.prems"(1) Some "1.prems"(1)] show ?thesis by simp
    qed
  qed
qed

section \<open>Facts about the base64 codec\<close>










text \<open>ASCII bytes are well-formed UTF-8 and read back unchanged.\<close>

lemma utf8ToString_ascii:
  "\<forall>c \<in> set s. (of_char c :: nat) \<le> 0x7F \<Longrightarrow> utf8ToString s = s"
  unfolding utf8ToString_def by (induction s) (simp_all add: utf8Decode.simps)

section \<open>Facts about the ticket parser\<close>

text \<open>The scope of a parsed ticket has as many entries as the ticket listed, at least one.\<close>

lemma mapE_length: "mapE f xs = Inr ys \<Longrightarrow> length ys = length xs"
  by (induction xs arbitrary: ys) (auto split: sum.splits)

lemma mapE_Nil: "mapE f xs = Inr [] \<Longrightarrow> xs = []"
  by (drule mapE_length) simp

lemma parseTicket_scope_nonempty: "parseTicket loaded = Inr t \<Longrightarrow> t_scope t \<noteq> []"
  by (auto simp: parseTicket_def split: option.splits if_splits jsval.splits sum.splits
      dest: mapE_Nil)

section \<open>Facts about the colour presets\<close>

text \<open>
  The tokens of the five colours are pairwise different, so the \<^verbatim>\<open>Set\<close> drops none.
\<close>

lemma dedupe_distinct: "distinct xs \<Longrightarrow> set xs \<inter> set seen = {} \<Longrightarrow> dedupe seen xs = xs"
  by (induction xs arbitrary: seen) auto

lemma colorToken_inj: "colorToken kind c1 shade = colorToken kind c2 shade \<Longrightarrow> c1 = c2"
proof -
  assume "colorToken kind c1 shade = colorToken kind c2 shade"
  then have "(c1 @ ''-'') @ shade = (c2 @ ''-'') @ shade" by (simp add: colorToken_def)
  then have "c1 @ ''-'' = c2 @ ''-''" by (rule append_same_eq [THEN iffD1])
  then show "c1 = c2" by simp
qed

lemma preset_find_any_all_colors:
  "dedupe [] (map (\<lambda>color. colorToken kind color shade) COLOR_PRESET_COLORS)
     = map (\<lambda>color. colorToken kind color shade) COLOR_PRESET_COLORS"
proof -
  have "distinct COLOR_PRESET_COLORS" by (simp add: COLOR_PRESET_COLORS_def)
  moreover have "inj_on (\<lambda>color. colorToken kind color shade) (set COLOR_PRESET_COLORS)"
    by (rule inj_onI) (rule colorToken_inj)
  ultimately have "distinct (map (\<lambda>color. colorToken kind color shade) COLOR_PRESET_COLORS)"
    by (simp add: distinct_map)
  then show ?thesis by (simp add: dedupe_distinct)
qed

lemma mapE_all_ok: "\<forall>x \<in> set xs. f x = Inr (g x) \<Longrightarrow> mapE f xs = Inr (map g xs)"
  by (induction xs) simp_all

section \<open>Facts about SafeReplace\<close>

text \<open>
  The scan returns a token of the list together with its first offset; every token
  before it in the list first occurs at a strictly higher offset, and every token
  after it at the same offset or a higher one.
\<close>

lemma chooseToken_Some_start:
  "\<exists>r. chooseToken s toks (Some c) = Some r"
  by (induction toks arbitrary: c) (auto split: option.splits prod.splits)

lemma chooseToken_acc:
  assumes "chooseToken s toks (Some (c, ci)) = Some (t, i)"
  shows "(t = c \<and> i = ci \<and> (\<forall>u \<in> set toks. \<forall>j. indexOf s u = Some j \<longrightarrow> ci \<le> j))
       \<or> (\<exists>pre post. toks = pre @ t # post \<and> indexOf s t = Some i \<and> i < ci
             \<and> (\<forall>u \<in> set pre. \<forall>j. indexOf s u = Some j \<longrightarrow> i < j)
             \<and> (\<forall>u \<in> set post. \<forall>j. indexOf s u = Some j \<longrightarrow> i \<le> j))"
  using assms
proof (induction toks arbitrary: c ci)
  case Nil
  then show ?case by simp
next
  case (Cons tok rest)
  show ?case
  proof (cases "indexOf s tok")
    case None
    with Cons.prems have "chooseToken s rest (Some (c, ci)) = Some (t, i)" by simp
    from Cons.IH [OF this] show ?thesis
    proof
      assume "t = c \<and> i = ci \<and> (\<forall>u \<in> set rest. \<forall>j. indexOf s u = Some j \<longrightarrow> ci \<le> j)"
      with None show ?thesis by auto
    next
      assume "\<exists>pre post. rest = pre @ t # post \<and> indexOf s t = Some i \<and> i < ci
             \<and> (\<forall>u \<in> set pre. \<forall>j. indexOf s u = Some j \<longrightarrow> i < j)
             \<and> (\<forall>u \<in> set post. \<forall>j. indexOf s u = Some j \<longrightarrow> i \<le> j)"
      then obtain pre post where p: "rest = pre @ t # post" "indexOf s t = Some i" "i < ci"
          "\<forall>u \<in> set pre. \<forall>j. indexOf s u = Some j \<longrightarrow> i < j"
          "\<forall>u \<in> set post. \<forall>j. indexOf s u = Some j \<longrightarrow> i \<le> j" by blast
      have "tok # rest = (tok # pre) @ t # post" using p(1) by simp
      moreover have "\<forall>u \<in> set (tok # pre). \<forall>j. indexOf s u = Some j \<longrightarrow> i < j"
        using p(4) None by auto
      ultimately show ?thesis using p(2,3,5) by blast
    qed
  next
    case (Some k)
    show ?thesis
    proof (cases "k < ci")
      case True
      with Some Cons.prems have "chooseToken s rest (Some (tok, k)) = Some (t, i)" by simp
      from Cons.IH [OF this] show ?thesis
      proof
        assume a: "t = tok \<and> i = k \<and> (\<forall>u \<in> set rest. \<forall>j. indexOf s u = Some j \<longrightarrow> k \<le> j)"
        have "tok # rest = [] @ t # rest" using a by simp
        moreover have "\<forall>u \<in> set ([]::string list). \<forall>j. indexOf s u = Some j \<longrightarrow> i < j" by simp
        ultimately show ?thesis using a Some True by blast
      next
        assume "\<exists>pre post. rest = pre @ t # post \<and> indexOf s t = Some i \<and> i < k
             \<and> (\<forall>u \<in> set pre. \<forall>j. indexOf s u = Some j \<longrightarrow> i < j)
             \<and> (\<forall>u \<in> set post. \<forall>j. indexOf s u = Some j \<longrightarrow> i \<le> j)"
        then obtain pre post where p: "rest = pre @ t # post" "indexOf s t = Some i" "i < k"
          "\<forall>u \<in> set pre. \<forall>j. indexOf s u = Some j \<longrightarrow> i < j"
          "\<forall>u \<in> set post. \<forall>j. indexOf s u = Some j \<longrightarrow> i \<le> j" by blast
        have "tok # rest = (tok # pre) @ t # post" using p(1) by simp
        moreover have "\<forall>u \<in> set (tok # pre). \<forall>j. indexOf s u = Some j \<longrightarrow> i < j"
          using p(3,4) Some by auto
        moreover have "i < ci" using p(3) True by simp
        ultimately show ?thesis using p(2,5) by blast
      qed
    next
      case False
      with Some Cons.prems have "chooseToken s rest (Some (c, ci)) = Some (t, i)" by simp
      from Cons.IH [OF this] show ?thesis
      proof
        assume "t = c \<and> i = ci \<and> (\<forall>u \<in> set rest. \<forall>j. indexOf s u = Some j \<longrightarrow> ci \<le> j)"
        with Some False show ?thesis by auto
      next
        assume "\<exists>pre post. rest = pre @ t # post \<and> indexOf s t = Some i \<and> i < ci
             \<and> (\<forall>u \<in> set pre. \<forall>j. indexOf s u = Some j \<longrightarrow> i < j)
             \<and> (\<forall>u \<in> set post. \<forall>j. indexOf s u = Some j \<longrightarrow> i \<le> j)"
        then obtain pre post where p: "rest = pre @ t # post" "indexOf s t = Some i" "i < ci"
          "\<forall>u \<in> set pre. \<forall>j. indexOf s u = Some j \<longrightarrow> i < j"
          "\<forall>u \<in> set post. \<forall>j. indexOf s u = Some j \<longrightarrow> i \<le> j" by blast
        have "tok # rest = (tok # pre) @ t # post" using p(1) by simp
        moreover have "\<forall>u \<in> set (tok # pre). \<forall>j. indexOf s u = Some j \<longrightarrow> i < j"
          using p(3,4) Some False by auto
        ultimately show ?thesis using p(2,3,5) by blast
      qed
    qed
  qed
qed

lemma chooseToken_None_iff:
  "chooseToken s toks None = None \<longleftrightarrow> (\<forall>u \<in> set toks. indexOf s u = None)"
proof (induction toks)
  case Nil
  show ?case by simp
next
  case (Cons tok rest)
  show ?case
  proof (cases "indexOf s tok")
    case None
    with Cons.IH show ?thesis by simp
  next
    case (Some k)
    then show ?thesis using chooseToken_Some_start [of s rest "(tok, k)"] by auto
  qed
qed

lemma chooseToken_first_lowest:
  assumes "chooseToken s toks None = Some (t, i)"
  shows "\<exists>pre post. toks = pre @ t # post \<and> indexOf s t = Some i
             \<and> (\<forall>u \<in> set pre. \<forall>j. indexOf s u = Some j \<longrightarrow> i < j)
             \<and> (\<forall>u \<in> set post. \<forall>j. indexOf s u = Some j \<longrightarrow> i \<le> j)"
  using assms
proof (induction toks)
  case Nil
  then show ?case by simp
next
  case (Cons tok rest)
  show ?case
  proof (cases "indexOf s tok")
    case None
    with Cons.prems have "chooseToken s rest None = Some (t, i)" by simp
    from Cons.IH [OF this] obtain pre post where p: "rest = pre @ t # post" "indexOf s t = Some i"
          "\<forall>u \<in> set pre. \<forall>j. indexOf s u = Some j \<longrightarrow> i < j"
          "\<forall>u \<in> set post. \<forall>j. indexOf s u = Some j \<longrightarrow> i \<le> j" by blast
    have "tok # rest = (tok # pre) @ t # post" using p(1) by simp
    moreover have "\<forall>u \<in> set (tok # pre). \<forall>j. indexOf s u = Some j \<longrightarrow> i < j"
      using p(3) None by auto
    ultimately show ?thesis using p(2,4) by blast
  next
    case (Some k)
    with Cons.prems have "chooseToken s rest (Some (tok, k)) = Some (t, i)" by simp
    from chooseToken_acc [OF this] show ?thesis
    proof
      assume a: "t = tok \<and> i = k \<and> (\<forall>u \<in> set rest. \<forall>j. indexOf s u = Some j \<longrightarrow> k \<le> j)"
      have "tok # rest = [] @ t # rest" using a by simp
      moreover have "\<forall>u \<in> set ([]::string list). \<forall>j. indexOf s u = Some j \<longrightarrow> i < j" by simp
      ultimately show ?thesis using a Some by blast
    next
      assume "\<exists>pre post. rest = pre @ t # post \<and> indexOf s t = Some i \<and> i < k
             \<and> (\<forall>u \<in> set pre. \<forall>j. indexOf s u = Some j \<longrightarrow> i < j)
             \<and> (\<forall>u \<in> set post. \<forall>j. indexOf s u = Some j \<longrightarrow> i \<le> j)"
      then obtain pre post where p: "rest = pre @ t # post" "indexOf s t = Some i" "i < k"
          "\<forall>u \<in> set pre. \<forall>j. indexOf s u = Some j \<longrightarrow> i < j"
          "\<forall>u \<in> set post. \<forall>j. indexOf s u = Some j \<longrightarrow> i \<le> j" by blast
      have "tok # rest = (tok # pre) @ t # post" using p(1) by simp
      moreover have "\<forall>u \<in> set (tok # pre). \<forall>j. indexOf s u = Some j \<longrightarrow> i < j"
        using p(3,4) Some by auto
      ultimately show ?thesis using p(2,5) by blast
    qed
  qed
qed

lemma js_split_nonempty_sep: "t \<noteq> [] \<Longrightarrow> js_split s t = splitOn t s"
  by (simp add: js_split_def)

lemma indexOf_Some_nonempty_split:
  "t \<noteq> [] \<Longrightarrow> indexOf s t = Some i \<Longrightarrow> 2 \<le> length (js_split s t)"
  using splitOn_nonempty [of t "drop (i + length t) s"]
  by (cases "splitOn t (drop (i + length t) s)") (simp_all add: js_split_def splitOn_found)

text \<open>
  A token listed with a no-break space (U+00A0, bytes C2 A0) before it is searched
  without it: in \<open>a\<close>, no-break space, \<open>b\<close> the \<open>b\<close> alone is replaced.
\<close>

lemma find_any_trims_no_break_space:
  "tokenListOf [[CHR 0xC2, CHR 0xA0, CHR ''b'']] = [''b'']
   \<and> applyReplacement
        \<lparr> rs_content = [CHR ''a'', CHR 0xC2, CHR 0xA0, CHR ''b''], rs_modified = False,
          rs_replacementCount = 0 \<rparr>
        (Some \<lparr> r_find = None, r_find_any = Some [[CHR 0xC2, CHR 0xA0, CHR ''b'']],
                r_replace = Some ''X'' \<rparr>)
      = Inr \<lparr> rs_content = [CHR ''a'', CHR 0xC2, CHR 0xA0, CHR ''X''], rs_modified = True,
              rs_replacementCount = 1 \<rparr>"
  by code_simp

lemma tokenListOf_nonempty: "u \<in> set (tokenListOf find_any) \<Longrightarrow> u \<noteq> []"
  by (auto simp: tokenListOf_def)

lemma substitute_found:
  "2 \<le> length (js_split (rs_content st) t) \<Longrightarrow>
   substitute st t rep =
     \<lparr> rs_content = js_join (js_split (rs_content st) t) rep, rs_modified = True,
       rs_replacementCount = rs_replacementCount st + (int (length (js_split (rs_content st) t)) - 1) \<rparr>"
  by (simp add: substitute_def Let_def)










text \<open>The rules of a directive never raise the outside-scope error.\<close>

lemma applyReplacement_no_scope_error:
  "applyReplacement st r \<noteq> Inl (SafeReplaceOutsideScope q)"
  by (auto simp: applyReplacement_def Let_def split: option.splits prod.splits)

lemma applyReplacements_no_scope_error:
  "applyReplacements st rs \<noteq> Inl (SafeReplaceOutsideScope q)"
  by (induction rs arbitrary: st) (auto simp: applyReplacement_no_scope_error split: sum.splits)

section \<open>Facts about the validator and Sanity Rails\<close>


text \<open>
  \<open>bufferFromBase64\<close> always returns a buffer, so the validator's \<^verbatim>\<open>catch\<close> branch
  is never taken: no input makes it report a decoding failure.
\<close>

lemma validateModelFile_never_decode_failure:
  "validateModelFile sc mfile \<noteq> Inl (Base64DecodeFailed p)"
  by (auto simp: validateModelFile_def bufferFromBase64_def Let_def split: option.splits)

lemma mapE_error_from_element: "mapE f xs = Inl e \<Longrightarrow> \<exists>x \<in> set xs. f x = Inl e"
  by (induction xs) (auto split: sum.splits)

lemma validateModelFiles_never_decode_failure:
  "validateModelFiles modelFiles sc \<noteq> Inl (Base64DecodeFailed p)"
proof
  assume a: "validateModelFiles modelFiles sc = Inl (Base64DecodeFailed p)"
  then obtain files where "modelFiles = Some files"
    and "mapE (validateModelFile sc) files = Inl (Base64DecodeFailed p)"
    by (auto simp: validateModelFiles_def split: option.splits if_splits)
  then obtain x where "validateModelFile sc x = Inl (Base64DecodeFailed p)"
    by (auto dest: mapE_error_from_element)
  then show False by (simp add: validateModelFile_never_decode_failure)
qed

section \<open>Claims\<close>

text \<open>
  C1, as the code has it. A normalised path is within scope exactly when, for some
  scope entry, it equals the entry, or extends an entry that ends in the separator,
  or extends an entry that does not end in the separator by the separator and any
  further text; so descendants of a file entry are in scope too. The validator and
  SafeReplace both decide by this predicate: for a path that does not escape the
  repository, each raises its outside-scope error exactly when the predicate fails.
\<close>

theorem isWithinScope_characterisation:
  "(isWithinScope p scope \<longleftrightarrow>
      (\<exists>e \<in> set scope. p = e \<or> (\<exists>r. p = (if endsWith e ''/'' then e else e @ ''/'') @ r)))
   \<and> (mf_path mfile = Some p' \<and> mf_contents_base64 mfile = Some b
        \<and> \<not> startsWith (posix_normalize (stripDotSlash p')) ''../'' \<longrightarrow>
        (validateModelFile scope mfile = Inl (PathOutsideScope p')
           \<longleftrightarrow> \<not> isWithinScope (posix_normalize (stripDotSlash p')) scope))
   \<and> (d_path entry = Some p' \<and> \<not> startsWith (posix_normalize (stripDotSlash p')) ''../'' \<longrightarrow>
        (processEntry scope scopeFiles entry = Inl (SafeReplaceOutsideScope p')
           \<longleftrightarrow> \<not> isWithinScope (posix_normalize (stripDotSlash p')) scope))"
proof -
  have char: "isWithinScope p scope \<longleftrightarrow>
      (\<exists>e \<in> set scope. p = e \<or> (\<exists>r. p = (if endsWith e ''/'' then e else e @ ''/'') @ r))"
    unfolding isWithinScope_def normalizedScope_id list_ex_iff scopeEntryContains_def
    by (auto simp: startsWith_iff_append)
  have validator: "validateModelFile scope mfile = Inl (PathOutsideScope p')
           \<longleftrightarrow> \<not> isWithinScope (posix_normalize (stripDotSlash p')) scope"
    if "mf_path mfile = Some p'" "mf_contents_base64 mfile = Some b"
       "\<not> startsWith (posix_normalize (stripDotSlash p')) ''../''"
    using that by (auto simp: validateModelFile_def Let_def bufferFromBase64_def)
  have engine: "processEntry scope scopeFiles entry = Inl (SafeReplaceOutsideScope p')
           \<longleftrightarrow> \<not> isWithinScope (posix_normalize (stripDotSlash p')) scope"
    if "d_path entry = Some p'" "\<not> startsWith (posix_normalize (stripDotSlash p')) ''../''"
  proof
    assume "processEntry scope scopeFiles entry = Inl (SafeReplaceOutsideScope p')"
    then show "\<not> isWithinScope (posix_normalize (stripDotSlash p')) scope"
      using that applyReplacements_no_scope_error
      by (auto simp: processEntry_def Let_def split: option.splits if_splits sum.splits)
  next
    assume "\<not> isWithinScope (posix_normalize (stripDotSlash p')) scope"
    with that show "processEntry scope scopeFiles entry = Inl (SafeReplaceOutsideScope p')"
      by (simp add: processEntry_def Let_def)
  qed
  from char validator engine show ?thesis by blast
qed

text \<open>
  With scope \<open>lib/\<close> and \<open>src/a.ts\<close>: \<open>lib/x.ts\<close> and \<open>src/a.ts\<close> are inside, \<open>src/b.ts\<close>
  is outside and refused by both edit paths.
\<close>

theorem isWithinScope_characterisation_witness:
  "isWithinScope ''lib/x.ts'' [''lib/'', ''src/a.ts'']
   \<and> isWithinScope ''src/a.ts'' [''lib/'', ''src/a.ts'']
   \<and> \<not> isWithinScope ''src/b.ts'' [''lib/'', ''src/a.ts'']
   \<and> validateModelFile [''lib/'', ''src/a.ts'']
        \<lparr> mf_path = Some ''src/b.ts'', mf_contents_base64 = Some ''aGk='' \<rparr>
      = Inl (PathOutsideScope ''src/b.ts'')
   \<and> processEntry [''lib/'', ''src/a.ts''] []
        \<lparr> d_path = Some ''src/b.ts'', d_replacements = [], d_color_preset = None \<rparr>
      = Inl (SafeReplaceOutsideScope ''src/b.ts'')"
proof -
  let ?scope = "[''lib/'', ''src/a.ts'']"
  let ?mfile = "\<lparr> mf_path = Some ''src/b.ts'', mf_contents_base64 = Some ''aGk='' \<rparr>"
  let ?entry = "\<lparr> d_path = Some ''src/b.ts'', d_replacements = [], d_color_preset = None \<rparr>"
  have inside: "isWithinScope ''lib/x.ts'' ?scope" "isWithinScope ''src/a.ts'' ?scope"
    by code_simp+
  have outside: "\<not> isWithinScope ''src/b.ts'' ?scope" by code_simp
  have norm: "posix_normalize (stripDotSlash ''src/b.ts'') = ''src/b.ts''" by code_simp
  have h1: "mf_path ?mfile = Some ''src/b.ts''" and h2: "mf_contents_base64 ?mfile = Some ''aGk=''"
    and h3: "d_path ?entry = Some ''src/b.ts''" by simp_all
  have h4: "\<not> startsWith (posix_normalize (stripDotSlash ''src/b.ts'')) ''../''"
    unfolding norm by simp
  from isWithinScope_characterisation
         [of "''src/b.ts''" ?scope ?mfile "''src/b.ts''" "''aGk=''" ?entry "[]"]
       h1 h2 h3 h4 outside inside
  show ?thesis unfolding norm by blast
qed

text \<open>
  C1 as stated fails: with the file entry \<open>a\<close> in scope, the path \<open>a/b\<close> is accepted,
  though it neither equals an entry nor descends from a directory-marked one.
\<close>

theorem isWithinScope_file_descendant_counterexample:
  "isWithinScope ''a/b'' [''a''] \<and> \<not> spec_inScope ''a/b'' [''a'']"
  by (simp add: isWithinScope_def normalizedScope_def scopeEntryContains_def endsWith_def spec_inScope_def)

text \<open>
  C2. A parsed ticket is to have a non-empty scope (which it has) free of \<open>..\<close>
  components. The parser rejects only a normalised entry that begins with \<open>../\<close>: the scope entry \<open>..\<close> normalises to
  \<open>..\<close>, which does not begin with \<open>../\<close>, and the ticket is accepted with \<open>..\<close> in
  its scope. Likewise \<open>a/../..\<close> is kept as \<open>..\<close> and \<open>../\<close> as \<open>../\<close>, while \<open>../x\<close>
  is refused.
\<close>

theorem parseTicket_keeps_parent_directory:
  "parseTicket (Some \<lparr> y_title = JStr ''Escape'', y_why = JStr ''probe'', y_scope = JArr [JStr ''..''],
                        y_dod = JArr [JStr ''done''], y_guardrails = JNull, y_safe_replace = [] \<rparr>)
   = Inr \<lparr> t_title = JStr ''Escape'', t_why = JStr ''probe'', t_scope = [''..''],
           t_dod = JArr [JStr ''done''], t_guardrails = JNull, t_safe_replace = [] \<rparr>
   \<and> hasTraversalComponent ''..''
   \<and> normalizeScopeEntry (JStr ''a/../..'') = Inr ''..''
   \<and> normalizeScopeEntry (JStr ''../'') = Inr ''../''
   \<and> normalizeScopeEntry (JStr ''../x'') = Inl (ScopeEscapesRepository ''../x'')"
  by code_simp

text \<open>
  C3. Contents that are no valid base64 are to be refused as a decoding failure. The
  string \<open>aGk*\<close> is no valid base64, yet the validator skips the \<open>*\<close>, decodes the
  rest to \<open>hi\<close> and returns a candidate file.
\<close>

theorem validateModelFiles_accepts_invalid_base64:
  "\<not> validBase64 ''aGk*''
   \<and> validateModelFiles (Some [\<lparr> mf_path = Some ''f.ts'', mf_contents_base64 = Some ''aGk*'' \<rparr>]) [''f.ts'']
     = Inr [\<lparr> cf_path = ''f.ts'', cf_contents = ''hi'', cf_base64 = ''aGk*'' \<rparr>]"
proof -
  have invalid: "\<not> validBase64 ''aGk*''" by code_simp
  have path: "posix_normalize (stripDotSlash ''f.ts'') = ''f.ts''" by code_simp
  have inside: "isWithinScope ''f.ts'' [''f.ts'']" by code_simp
  have decoded: "bufferFromBase64 ''aGk*'' = Some ''hi''" by code_simp
  have ascii: "utf8ToString ''hi'' = ''hi''" by code_simp
  have "validateModelFile [''f.ts''] \<lparr> mf_path = Some ''f.ts'', mf_contents_base64 = Some ''aGk*'' \<rparr>
      = Inr \<lparr> cf_path = ''f.ts'', cf_contents = ''hi'', cf_base64 = ''aGk*'' \<rparr>"
    by (simp add: validateModelFile_def path inside decoded ascii MAX_FILE_SIZE_def)
  then have "validateModelFiles (Some [\<lparr> mf_path = Some ''f.ts'', mf_contents_base64 = Some ''aGk*'' \<rparr>]) [''f.ts'']
      = Inr [\<lparr> cf_path = ''f.ts'', cf_contents = ''hi'', cf_base64 = ''aGk*'' \<rparr>]"
    by (simp add: validateModelFiles_def MAX_FILES_def)
  with invalid show ?thesis by simp
qed




text \<open>
  C5, as the code has it. For a valid preset (after trimming, the target is a palette
  name, every kind a recognised kind and every shade a recognised shade; absent kinds
  default to \<open>text\<close> and absent shades to \<open>500\<close>) the expansion succeeds with one rule
  per kind and shade, kinds outermost, in the order given. The \<open>find_any\<close> of a rule
  lists the token of every palette name, the target's own included, in palette order,
  each built by the template kind-colour-shade; its \<open>replace\<close> is the token of the
  target.
\<close>

theorem color_preset_expansion:
  assumes "js_trim (cp_target p) \<in> set COLOR_PRESET_COLORS"
    and "\<forall>rawKind \<in> set (cp_kinds p). js_trim rawKind \<in> set COLOR_PRESET_KIND_SET"
    and "\<forall>rawShade \<in> set (cp_shades p). js_trim rawShade \<in> set COLOR_PRESET_SHADE_SET"
  shows "buildColorPresetReplacements (Some p) =
     Inr (concat (map (\<lambda>rawKind. map (\<lambda>rawShade.
            \<lparr> r_find = None,
              r_find_any = Some (map (\<lambda>color. colorToken (js_trim rawKind) color (js_trim rawShade))
                                   COLOR_PRESET_COLORS),
              r_replace = Some (colorToken (js_trim rawKind) (js_trim (cp_target p)) (js_trim rawShade)) \<rparr>)
          (if cp_shades p \<noteq> [] then cp_shades p else [''500'']))
        (if cp_kinds p \<noteq> [] then cp_kinds p else [''text''])))"
proof -
  let ?target = "js_trim (cp_target p)"
  let ?kinds = "if cp_kinds p \<noteq> [] then cp_kinds p else [''text'']"
  let ?shades = "if cp_shades p \<noteq> [] then cp_shades p else [''500'']"
  let ?rule = "\<lambda>rawKind rawShade.
            \<lparr> r_find = None,
              r_find_any = Some (map (\<lambda>color. colorToken (js_trim rawKind) color (js_trim rawShade))
                                   COLOR_PRESET_COLORS),
              r_replace = Some (colorToken (js_trim rawKind) ?target (js_trim rawShade)) \<rparr>"
  have t_ne: "?target \<noteq> []" using assms(1) by (auto simp: COLOR_PRESET_COLORS_def)
  have defaults: "js_trim ''text'' = ''text''" "js_trim ''500'' = ''500''" by code_simp+
  have kinds_ok: "\<forall>rawKind \<in> set ?kinds. js_trim rawKind \<in> set COLOR_PRESET_KIND_SET"
    using assms(2) by (simp add: COLOR_PRESET_KIND_SET_def defaults)
  have shades_ok: "\<forall>rawShade \<in> set ?shades. js_trim rawShade \<in> set COLOR_PRESET_SHADE_SET"
    using assms(3) by (simp add: COLOR_PRESET_SHADE_SET_def defaults)
  have inner: "mapE (presetRule ?target (js_trim rawKind)) ?shades = Inr (map (?rule rawKind) ?shades)"
    for rawKind
  proof (rule mapE_all_ok)
    show "\<forall>rawShade \<in> set ?shades.
        presetRule ?target (js_trim rawKind) rawShade = Inr (?rule rawKind rawShade)"
      using shades_ok by (simp add: presetRule_def Let_def preset_find_any_all_colors)
  qed
  have outer: "mapE (presetRulesOfKind ?target ?shades) ?kinds
      = Inr (map (\<lambda>rawKind. map (?rule rawKind) ?shades) ?kinds)"
  proof (rule mapE_all_ok)
    show "\<forall>rawKind \<in> set ?kinds.
        presetRulesOfKind ?target ?shades rawKind = Inr (map (?rule rawKind) ?shades)"
      using kinds_ok inner by (simp add: presetRulesOfKind_def Let_def)
  qed
  show ?thesis
    using assms(1) t_ne outer by (simp add: buildColorPresetReplacements_def Let_def)
qed

text \<open>Target \<open>purple\<close> with two kinds and one shade gives two rules.\<close>

theorem color_preset_expansion_witness:
  "buildColorPresetReplacements
     (Some \<lparr> cp_target = ''purple'', cp_kinds = [''text'', ''bg''], cp_shades = [''500''] \<rparr>)
   = Inr [\<lparr> r_find = None,
            r_find_any = Some [''text-red-500'', ''text-orange-500'', ''text-pink-500'',
                               ''text-purple-500'', ''text-green-500''],
            r_replace = Some ''text-purple-500'' \<rparr>,
          \<lparr> r_find = None,
            r_find_any = Some [''bg-red-500'', ''bg-orange-500'', ''bg-pink-500'',
                               ''bg-purple-500'', ''bg-green-500''],
            r_replace = Some ''bg-purple-500'' \<rparr>]"
proof -
  let ?p = "\<lparr> cp_target = ''purple'', cp_kinds = [''text'', ''bg''], cp_shades = [''500''] \<rparr>"
  have h1: "js_trim (cp_target ?p) \<in> set COLOR_PRESET_COLORS" by code_simp
  have h2: "\<forall>rawKind \<in> set (cp_kinds ?p). js_trim rawKind \<in> set COLOR_PRESET_KIND_SET" by code_simp
  have h3: "\<forall>rawShade \<in> set (cp_shades ?p). js_trim rawShade \<in> set COLOR_PRESET_SHADE_SET" by code_simp
  have tr: "js_trim ''purple'' = ''purple''" "js_trim ''text'' = ''text''" "js_trim ''bg'' = ''bg''"
    "js_trim ''500'' = ''500''" by code_simp+
  from color_preset_expansion [OF h1 h2 h3] show ?thesis
    by (simp add: tr colorToken_def COLOR_PRESET_COLORS_def)
qed

text \<open>
  C5 as stated fails on the specification's own example: the \<open>find_any\<close> generated for
  target \<open>purple\<close> holds \<open>text-purple-500\<close>, which a list of every palette name except
  the target would not.
\<close>

theorem color_preset_lists_target_counterexample:
  "buildColorPresetReplacements
     (Some \<lparr> cp_target = ''purple'', cp_kinds = [''text''], cp_shades = [''500''] \<rparr>)
   = Inr [\<lparr> r_find = None,
            r_find_any = Some [''text-red-500'', ''text-orange-500'', ''text-pink-500'',
                               ''text-purple-500'', ''text-green-500''],
            r_replace = Some ''text-purple-500'' \<rparr>]
   \<and> spec_presetFindAny ''text'' ''purple'' ''500''
     = [''text-red-500'', ''text-orange-500'', ''text-pink-500'', ''text-green-500'']"
  by code_simp

text \<open>
  C6, as the code has it. The tokens of a \<open>find_any\<close> rule are first trimmed of white
  space at both ends, as \<^verbatim>\<open>trim()\<close> does, and the empty ones dropped. When at least one of the remaining tokens occurs in the current
  content, the rule substitutes one of them, whose first offset is the lowest among
  all of them wherever they stand in the list: the content is split at that token and
  rejoined with the replacement, so all its occurrences go (no segment holds the
  token, and the segments rejoined with the token are the content). The other tokens
  play no part in the result.
\<close>

theorem find_any_substitutes_lowest_offset_token:
  assumes "r_find r = None" and "r_find_any r = Some find_any" and "r_replace r = Some replaceValue"
    and "\<exists>u \<in> set (tokenListOf find_any). indexOf (rs_content st) u \<noteq> None"
  shows "\<exists>t i. t \<in> set (tokenListOf find_any) \<and> indexOf (rs_content st) t = Some i
           \<and> (\<forall>u \<in> set (tokenListOf find_any). \<forall>j. indexOf (rs_content st) u = Some j \<longrightarrow> i \<le> j)
           \<and> applyReplacement st (Some r) =
               Inr \<lparr> rs_content = js_join (js_split (rs_content st) t) replaceValue, rs_modified = True,
                     rs_replacementCount =
                       rs_replacementCount st + (int (length (js_split (rs_content st) t)) - 1) \<rparr>
           \<and> js_join (js_split (rs_content st) t) t = rs_content st
           \<and> (\<forall>seg \<in> set (js_split (rs_content st) t). indexOf seg t = None)"
proof -
  let ?toks = "tokenListOf find_any" and ?c = "rs_content st"
  from assms(4) have ne: "?toks \<noteq> []" by auto
  from assms(4) have "chooseToken ?c ?toks None \<noteq> None"
    by (simp add: chooseToken_None_iff)
  then obtain t i where ch: "chooseToken ?c ?toks None = Some (t, i)" by auto
  from chooseToken_first_lowest [OF ch] obtain pre post where
    p: "?toks = pre @ t # post" "indexOf ?c t = Some i"
       "\<forall>u \<in> set pre. \<forall>j. indexOf ?c u = Some j \<longrightarrow> i < j"
       "\<forall>u \<in> set post. \<forall>j. indexOf ?c u = Some j \<longrightarrow> i \<le> j" by blast
  have mem: "t \<in> set ?toks" using p(1) by simp
  then have tne: "t \<noteq> []" by (rule tokenListOf_nonempty)
  have low: "\<forall>u \<in> set ?toks. \<forall>j. indexOf ?c u = Some j \<longrightarrow> i \<le> j"
  proof (intro ballI allI impI)
    fix u j assume "u \<in> set ?toks" and j: "indexOf ?c u = Some j"
    then have "u \<in> set pre \<or> u = t \<or> u \<in> set post" using p(1) by auto
    then show "i \<le> j" using p(2,3,4) j by (auto dest: less_imp_le)
  qed
  have len: "2 \<le> length (js_split ?c t)" using tne p(2) by (rule indexOf_Some_nonempty_split)
  have "applyReplacement st (Some r) = Inr (substitute st t replaceValue)"
    using assms(1,2,3) ne ch by (simp add: applyReplacement_def Let_def)
  then have app: "applyReplacement st (Some r) =
      Inr \<lparr> rs_content = js_join (js_split ?c t) replaceValue, rs_modified = True,
            rs_replacementCount = rs_replacementCount st + (int (length (js_split ?c t)) - 1) \<rparr>"
    using substitute_found [OF len] by simp
  have rejoin: "js_join (js_split ?c t) t = ?c"
    using tne by (simp add: js_split_nonempty_sep js_join_splitOn)
  have segs: "\<forall>seg \<in> set (js_split ?c t). indexOf seg t = None"
    using tne by (auto simp: js_split_nonempty_sep dest: segments_without_sep)
  from mem p(2) low app rejoin segs show ?thesis by blast
qed

text \<open>
  The specification's example: of \<open>pink-500\<close> and \<open>orange-500\<close>, listed in this order,
  \<open>orange-500\<close> stands first in the content and is the one replaced.
\<close>

theorem find_any_substitutes_lowest_offset_token_witness:
  "(\<exists>u \<in> set (tokenListOf [''pink-500'', ''orange-500'']).
       indexOf ''a-orange-500 b-pink-500'' u \<noteq> None)
   \<and> (\<exists>t i. t \<in> set (tokenListOf [''pink-500'', ''orange-500''])
         \<and> indexOf ''a-orange-500 b-pink-500'' t = Some i
         \<and> applyReplacement
              \<lparr> rs_content = ''a-orange-500 b-pink-500'', rs_modified = False, rs_replacementCount = 0 \<rparr>
              (Some \<lparr> r_find = None, r_find_any = Some [''pink-500'', ''orange-500''],
                      r_replace = Some ''purple-500'' \<rparr>)
             = Inr \<lparr> rs_content = js_join (js_split ''a-orange-500 b-pink-500'' t) ''purple-500'',
                     rs_modified = True,
                     rs_replacementCount = int (length (js_split ''a-orange-500 b-pink-500'' t)) - 1 \<rparr>)
   \<and> applyReplacement
        \<lparr> rs_content = ''a-orange-500 b-pink-500'', rs_modified = False, rs_replacementCount = 0 \<rparr>
        (Some \<lparr> r_find = None, r_find_any = Some [''pink-500'', ''orange-500''],
                r_replace = Some ''purple-500'' \<rparr>)
      = Inr \<lparr> rs_content = ''a-purple-500 b-pink-500'', rs_modified = True, rs_replacementCount = 1 \<rparr>"
proof -
  let ?r = "\<lparr> r_find = None, r_find_any = Some [''pink-500'', ''orange-500''],
              r_replace = Some ''purple-500'' \<rparr>"
  let ?st = "\<lparr> rs_content = ''a-orange-500 b-pink-500'', rs_modified = False, rs_replacementCount = 0 \<rparr>"
  have h1: "r_find ?r = None" and h2: "r_find_any ?r = Some [''pink-500'', ''orange-500'']"
    and h3: "r_replace ?r = Some ''purple-500''" by simp_all
  have toks: "tokenListOf [''pink-500'', ''orange-500''] = [''pink-500'', ''orange-500'']"
    by code_simp
  have h4: "\<exists>u \<in> set (tokenListOf [''pink-500'', ''orange-500'']). indexOf (rs_content ?st) u \<noteq> None"
    unfolding toks by simp
  have ev: "applyReplacement ?st (Some ?r)
      = Inr \<lparr> rs_content = ''a-purple-500 b-pink-500'', rs_modified = True, rs_replacementCount = 1 \<rparr>"
    by code_simp
  from find_any_substitutes_lowest_offset_token [OF h1 h2 h3 h4] h4 ev
  show ?thesis by (simp del: indexOf.simps) blast
qed

text \<open>
  C6 as stated fails for a token listed with white space around it: the token \<open>" b"\<close>
  occurs in \<open>"a b"\<close> at offset 1, and replacing it would give \<open>"aX"\<close>; the code trims
  it to \<open>"b"\<close> and gives \<open>"a X"\<close>.
\<close>

theorem find_any_untrimmed_token_counterexample:
  "indexOf ''a b'' '' b'' = Some 1
   \<and> spec_findAny ''a b'' ['' b''] ''X'' = ''aX''
   \<and> applyReplacement \<lparr> rs_content = ''a b'', rs_modified = False, rs_replacementCount = 0 \<rparr>
        (Some \<lparr> r_find = None, r_find_any = Some ['' b''], r_replace = Some ''X'' \<rparr>)
      = Inr \<lparr> rs_content = ''a X'', rs_modified = True, rs_replacementCount = 1 \<rparr>"
  by code_simp







text \<open>
  C10, as the code has it. Take the tokens of a \<open>find_any\<close> rule as the engine reads
  them, trimmed of white space at both ends, as \<^verbatim>\<open>trim()\<close> does, and with the empty
  ones dropped. If a token first occurs at offset \<open>i\<close>,
  every token before it in the list first occurs at a higher offset or not at all, and
  every token after it at offset \<open>i\<close> or higher or not at all, then that token is the
  one chosen and substituted: among the tokens that share the lowest offset the
  earliest in the list wins. The scan is a function of the content and the list, so
  the choice is determined.
\<close>

theorem find_any_tie_goes_to_earliest_token:
  assumes "r_find r = None" and "r_find_any r = Some find_any" and "r_replace r = Some replaceValue"
    and "tokenListOf find_any = pre @ t # post"
    and "indexOf (rs_content st) t = Some i"
    and "\<forall>u \<in> set pre. \<forall>j. indexOf (rs_content st) u = Some j \<longrightarrow> i < j"
    and "\<forall>u \<in> set post. \<forall>j. indexOf (rs_content st) u = Some j \<longrightarrow> i \<le> j"
  shows "chooseToken (rs_content st) (tokenListOf find_any) None = Some (t, i)
       \<and> applyReplacement st (Some r) = Inr (substitute st t replaceValue)
       \<and> rs_content (substitute st t replaceValue) = js_join (js_split (rs_content st) t) replaceValue"
proof -
  let ?toks = "tokenListOf find_any" and ?c = "rs_content st"
  have "chooseToken ?c ?toks None \<noteq> None"
    using assms(4,5) by (auto simp: chooseToken_None_iff)
  then obtain t' i' where ch: "chooseToken ?c ?toks None = Some (t', i')" by auto
  from chooseToken_first_lowest [OF ch] obtain pre' post' where
    p: "?toks = pre' @ t' # post'" "indexOf ?c t' = Some i'"
       "\<forall>u \<in> set pre'. \<forall>j. indexOf ?c u = Some j \<longrightarrow> i' < j"
       "\<forall>u \<in> set post'. \<forall>j. indexOf ?c u = Some j \<longrightarrow> i' \<le> j" by blast
  have eq: "pre @ t # post = pre' @ t' # post'" using assms(4) p(1) by simp
  have "pre = pre'"
  proof (rule ccontr)
    assume ne: "pre \<noteq> pre'"
    from eq consider us where "pre = pre' @ t' # us" | us where "pre' = pre @ t # us"
      using ne by (auto simp: append_eq_append_conv2 append_eq_Cons_conv Cons_eq_append_conv)
    then show False
    proof cases
      case 1
      then have "t' \<in> set pre" by simp
      with assms(6) p(2) have "i < i'" by blast
      moreover from 1 eq have "t \<in> set post'" by auto
      with p(4) assms(5) have "i' \<le> i" by blast
      ultimately show False by simp
    next
      case 2
      then have "t \<in> set pre'" by simp
      with p(3) assms(5) have "i' < i" by blast
      moreover from 2 eq have "t' \<in> set post" by auto
      with assms(7) p(2) have "i \<le> i'" by blast
      ultimately show False by simp
    qed
  qed
  with eq have "t' = t" by simp
  with p(2) assms(5) have "i' = i" by simp
  from ch \<open>t' = t\<close> \<open>i' = i\<close> have ch': "chooseToken ?c ?toks None = Some (t, i)" by simp
  have ne: "?toks \<noteq> []" using assms(4) by simp
  have app: "applyReplacement st (Some r) = Inr (substitute st t replaceValue)"
    using assms(1,2,3) ne ch' by (simp add: applyReplacement_def Let_def)
  have "rs_content (substitute st t replaceValue) = js_join (js_split ?c t) replaceValue"
    by (simp add: substitute_def Let_def)
  with ch' app show ?thesis by simp
qed

text \<open>
  \<open>text-red\<close> is a prefix of \<open>text-red-500\<close>; both first occur at offset 2, and the one
  listed first is replaced.
\<close>

theorem find_any_tie_goes_to_earliest_token_witness:
  "tokenListOf [''text-red'', ''text-red-500''] = [] @ ''text-red'' # [''text-red-500'']
   \<and> indexOf ''a text-red-500'' ''text-red'' = Some 2
   \<and> indexOf ''a text-red-500'' ''text-red-500'' = Some 2
   \<and> applyReplacement \<lparr> rs_content = ''a text-red-500'', rs_modified = False, rs_replacementCount = 0 \<rparr>
        (Some \<lparr> r_find = None, r_find_any = Some [''text-red'', ''text-red-500''], r_replace = Some ''X'' \<rparr>)
      = Inr \<lparr> rs_content = ''a X-500'', rs_modified = True, rs_replacementCount = 1 \<rparr>"
proof -
  let ?r = "\<lparr> r_find = None, r_find_any = Some [''text-red'', ''text-red-500''], r_replace = Some ''X'' \<rparr>"
  let ?st = "\<lparr> rs_content = ''a text-red-500'', rs_modified = False, rs_replacementCount = 0 \<rparr>"
  have h1: "r_find ?r = None" and h2: "r_find_any ?r = Some [''text-red'', ''text-red-500'']"
    and h3: "r_replace ?r = Some ''X''" by simp_all
  have h4: "tokenListOf [''text-red'', ''text-red-500''] = [] @ ''text-red'' # [''text-red-500'']"
    by code_simp
  have h5: "indexOf (rs_content ?st) ''text-red'' = Some 2" by code_simp
  have h5': "indexOf (rs_content ?st) ''text-red-500'' = Some 2" by code_simp
  have h6: "\<forall>u \<in> set ([] :: string list). \<forall>j. indexOf (rs_content ?st) u = Some j \<longrightarrow> 2 < j" by simp
  have h7: "\<forall>u \<in> set [''text-red-500'']. \<forall>j. indexOf (rs_content ?st) u = Some j \<longrightarrow> 2 \<le> j"
    using h5' by simp
  have sub: "substitute ?st ''text-red'' ''X''
     = \<lparr> rs_content = ''a X-500'', rs_modified = True, rs_replacementCount = 1 \<rparr>" by code_simp
  from find_any_tie_goes_to_earliest_token [OF h1 h2 h3 h4 h5 h6 h7] h4 h5 h5' sub
  show ?thesis by simp
qed

text \<open>
  C10 as stated fails for tokens listed with white space around them: \<open>"a c"\<close> and
  \<open>"a "\<close> both first occur in \<open>"ab a c"\<close> at offset 3, the lowest, and \<open>"a c"\<close> is
  listed first; but the code trims \<open>"a "\<close> to \<open>"a"\<close>, finds it at offset 0 and replaces
  that.
\<close>

theorem find_any_tie_untrimmed_counterexample:
  "indexOf ''ab a c'' ''a c'' = Some 3 \<and> indexOf ''ab a c'' ''a '' = Some 3
   \<and> spec_findAny ''ab a c'' [''a c'', ''a ''] ''X'' = ''ab X''
   \<and> applyReplacement \<lparr> rs_content = ''ab a c'', rs_modified = False, rs_replacementCount = 0 \<rparr>
        (Some \<lparr> r_find = None, r_find_any = Some [''a c'', ''a ''], r_replace = Some ''X'' \<rparr>)
      = Inr \<lparr> rs_content = ''Xb X c'', rs_modified = True, rs_replacementCount = 2 \<rparr>"
  by code_simp

end
